theory Spec2Isabelle
  imports Main
begin

section \<open>Python strings\<close>

text \<open>
  A text is a list of characters, one per code point, so that \<open>length\<close> is Python's
  \<open>len\<close>. The type \<open>char\<close> has 256 values; they are read as the code points U+0000 to
  U+00FF, which include the section sign U+00A7 of the citation patterns. Texts with code
  points above U+00FF are outside this model.
\<close>

definition section_sign :: char where
  "section_sign = CHR 0xA7"

definition code_point :: "char \<Rightarrow> nat" where
  "code_point c = of_char c"

definition clip_index :: "int \<Rightarrow> nat \<Rightarrow> nat" where
  \<comment> \<open>how a slice bound is adjusted: a negative bound counts from the end, then the
      bound is clipped to the range from 0 to the length\<close>
  "clip_index i n =
     (let j = (if i < 0 then i + int n else i)
      in if j < 0 then 0 else if int n < j then n else nat j)"

definition slice :: "'a list \<Rightarrow> int \<Rightarrow> int \<Rightarrow> 'a list" where
  \<comment> \<open>\<open>xs[a:b]\<close>\<close>
  "slice xs a b =
     (let i = clip_index a (length xs); j = clip_index b (length xs)
      in take (j - i) (drop i xs))"

definition replace_char :: "char \<Rightarrow> char \<Rightarrow> string \<Rightarrow> string" where
  \<comment> \<open>\<open>s.replace(old, new)\<close> for one-character \<open>old\<close> and \<open>new\<close>\<close>
  "replace_char old new s = map (\<lambda>c. if c = old then new else c) s"

section \<open>The regular expressions of the pattern table\<close>

text \<open>
  The constructs that occur in the five patterns, matched the way the \<open>re\<close> module does
  under \<open>re.IGNORECASE\<close> on a \<open>str\<close>: a backtracking matcher that tries the alternatives
  in priority order (a greedy repetition tries one more iteration before it tries to stop).
\<close>

datatype regex =
    Lit char                      \<comment> \<open>a literal character, also an escaped one\<close>
  | Digit                         \<comment> \<open>\<open>\d\<close>\<close>
  | Space                         \<comment> \<open>\<open>\s\<close>\<close>
  | In "(char \<times> char) list"       \<comment> \<open>\<open>[...]\<close>: ranges; a single member \<open>c\<close> is \<open>(c, c)\<close>\<close>
  | WordBoundary                  \<comment> \<open>\<open>\b\<close>\<close>
  | Eps                           \<comment> \<open>the empty pattern\<close>
  | Seq regex regex
  | Alt regex regex               \<comment> \<open>\<open>a|b\<close>\<close>
  | Star regex                    \<comment> \<open>\<open>r*\<close>, greedy\<close>
  | Group nat regex               \<comment> \<open>\<open>(r)\<close>, the capturing group of that number\<close>

definition Opt :: "regex \<Rightarrow> regex" where
  \<comment> \<open>\<open>r?\<close>, greedy\<close>
  "Opt r = Alt r Eps"

definition Plus :: "regex \<Rightarrow> regex" where
  \<comment> \<open>\<open>r+\<close>, greedy\<close>
  "Plus r = Seq r (Star r)"

fun seq :: "regex list \<Rightarrow> regex" where
  "seq [] = Eps"
| "seq (r # rs) = Seq r (seq rs)"

fun ngroups :: "regex \<Rightarrow> nat" where
  "ngroups (Seq a b) = max (ngroups a) (ngroups b)"
| "ngroups (Alt a b) = max (ngroups a) (ngroups b)"
| "ngroups (Star r) = ngroups r"
| "ngroups (Group n r) = max n (ngroups r)"
| "ngroups _ = 0"

subsection \<open>Character classes on U+0000 to U+00FF\<close>

text \<open>The engine works on code points; these are the classes of a \<open>str\<close> pattern.\<close>

definition in_range :: "nat \<Rightarrow> nat \<Rightarrow> nat \<Rightarrow> bool" where
  "in_range lo hi n = (lo \<le> n \<and> n \<le> hi)"

definition py_lower :: "nat \<Rightarrow> nat" where
  \<comment> \<open>the lower-case mapping: A-Z, and the accented capitals U+00C0 to U+00DE without
      the multiplication sign U+00D7\<close>
  "py_lower n =
     (if in_range 0x41 0x5A n \<or> in_range 0xC0 0xD6 n \<or> in_range 0xD8 0xDE n
      then n + 32 else n)"

definition py_upper :: "nat \<Rightarrow> nat" where
  \<comment> \<open>the capital of a lower-case letter that has one in this range\<close>
  "py_upper n =
     (if in_range 0x61 0x7A n \<or> in_range 0xE0 0xF6 n \<or> in_range 0xF8 0xFE n
      then n - 32 else n)"

definition is_digit :: "nat \<Rightarrow> bool" where
  "is_digit n = in_range 0x30 0x39 n"

definition is_space :: "nat \<Rightarrow> bool" where
  \<comment> \<open>tab to carriage return, the separators U+001C to U+001F, the blank, U+0085, U+00A0\<close>
  "is_space n = (in_range 0x09 0x0D n \<or> in_range 0x1C 0x20 n \<or> n = 0x85 \<or> n = 0xA0)"

definition is_word :: "nat \<Rightarrow> bool" where
  \<comment> \<open>\<open>\w\<close>: the alphanumeric characters and the underscore\<close>
  "is_word n =
     (in_range 0x30 0x39 n \<or> in_range 0x41 0x5A n \<or> n = 0x5F \<or> in_range 0x61 0x7A n
      \<or> n = 0xAA \<or> in_range 0xB2 0xB3 n \<or> n = 0xB5
      \<or> in_range 0xB9 0xBA n \<or> in_range 0xBC 0xBE n \<or> in_range 0xC0 0xD6 n
      \<or> in_range 0xD8 0xF6 n \<or> in_range 0xF8 0xFF n)"

definition lit_match :: "char \<Rightarrow> nat \<Rightarrow> bool" where
  \<comment> \<open>a literal of the pattern against a character of the text, ignoring case\<close>
  "lit_match p n = (py_lower n = py_lower (code_point p))"

definition in_match :: "(char \<times> char) list \<Rightarrow> nat \<Rightarrow> bool" where
  \<comment> \<open>ignoring case, the set holds the lowerings of its members, and the lowered
      character is looked up: it is a member, or its capital is\<close>
  "in_match rs n =
     list_ex (\<lambda>(lo, hi). in_range (code_point lo) (code_point hi) (py_lower n)
                \<or> in_range (code_point lo) (code_point hi) (py_upper (py_lower n))) rs"

definition at_boundary :: "char option \<Rightarrow> string \<Rightarrow> bool" where
  \<comment> \<open>\<open>\b\<close>: exactly one of the characters before and after the position is a word
      character; outside the text there is none\<close>
  "at_boundary p rest =
     ((case p of None \<Rightarrow> False | Some c \<Rightarrow> is_word (code_point c))
       \<noteq> (case rest of [] \<Rightarrow> False | c # _ \<Rightarrow> is_word (code_point c)))"

subsection \<open>The matcher\<close>

type_synonym marks = "(nat \<times> nat) option list"

text \<open>
  A state of the matcher: the position in the text, the character before it, the
  text from the position on, and the marks of the groups.
\<close>

type_synonym mstate = "nat \<times> char option \<times> string \<times> marks"

definition pos_of :: "mstate \<Rightarrow> nat" where
  "pos_of s = fst s"

definition remaining :: "mstate \<Rightarrow> nat" where
  "remaining s = length (fst (snd (snd s)))"

fun one_char :: "(nat \<Rightarrow> bool) \<Rightarrow> mstate \<Rightarrow> mstate list" where
  "one_char P (i, p, [], m) = []"
| "one_char P (i, p, c # cs, m) = (if P (code_point c) then [(i + 1, Some c, cs, m)] else [])"

text \<open>
  \<open>ends r s\<close> lists, in the order in which backtracking reaches them, the states in
  which a match of \<open>r\<close> that starts in state \<open>s\<close> can end. A greedy repetition goes on
  with every end of its body that has consumed something, and stops after those.
\<close>

function star_ends :: "(mstate \<Rightarrow> mstate list) \<Rightarrow> mstate \<Rightarrow> mstate list" where
  "star_ends f s =
     concat (map (star_ends f) (filter (\<lambda>s'. remaining s' < remaining s) (f s))) @ [s]"
  by pat_completeness simp
termination
  by (relation "measure (\<lambda>(f, s). remaining s)") simp_all

declare star_ends.simps [simp del]

fun ends :: "regex \<Rightarrow> mstate \<Rightarrow> mstate list" where
  "ends (Lit p) s = one_char (lit_match p) s"
| "ends Digit s = one_char is_digit s"
| "ends Space s = one_char is_space s"
| "ends (In rs) s = one_char (in_match rs) s"
| "ends WordBoundary (i, p, rest, m) = (if at_boundary p rest then [(i, p, rest, m)] else [])"
| "ends Eps s = [s]"
| "ends (Seq a b) s = concat (map (ends b) (ends a s))"
| "ends (Alt a b) s = ends a s @ ends b s"
| "ends (Star r) s = star_ends (ends r) s"
| "ends (Group n r) (i, p, rest, m) =
     map (\<lambda>(j, q, rest', m'). (j, q, rest', m'[n - 1 := Some (i, j)])) (ends r (i, p, rest, m))"

definition init_marks :: "regex \<Rightarrow> marks" where
  "init_marks r = replicate (ngroups r) None"

definition accepted :: "regex \<Rightarrow> nat \<times> char option \<times> string \<Rightarrow> bool \<Rightarrow> mstate list" where
  \<comment> \<open>the ends of the matches that start at a position; a search that must advance
      refuses the empty match\<close>
  "accepted r st must_advance =
     (case st of (i, p, rest) \<Rightarrow>
        filter (\<lambda>s. \<not> (must_advance \<and> pos_of s = i)) (ends r (i, p, rest, init_marks r)))"

text \<open>
  The search of the engine: the first start position from the given one on at which the
  pattern matches. The flag \<open>must_advance\<close> holds for the first attempt only.
\<close>

fun search :: "regex \<Rightarrow> nat \<times> char option \<times> string \<Rightarrow> bool \<Rightarrow> (nat \<times> mstate) option" where
  "search r (i, p, rest) must_advance =
     (case accepted r (i, p, rest) must_advance of
        s # _ \<Rightarrow> Some (i, s)
      | [] \<Rightarrow> (case rest of
                [] \<Rightarrow> None
              | c # cs \<Rightarrow> search r (i + 1, Some c, cs) False))"

declare search.simps [simp del]

subsection \<open>Match objects and \<open>re.finditer\<close>\<close>

record rematch =
  m_string :: string
  m_start :: nat
  m_end :: nat
  m_marks :: marks

definition group0 :: "rematch \<Rightarrow> string" where
  \<comment> \<open>\<open>match.group(0)\<close>\<close>
  "group0 m = slice (m_string m) (int (m_start m)) (int (m_end m))"

definition span :: "rematch \<Rightarrow> nat \<times> nat" where
  \<comment> \<open>\<open>match.span()\<close>\<close>
  "span m = (m_start m, m_end m)"

definition m_groups :: "rematch \<Rightarrow> string option list" where
  \<comment> \<open>\<open>match.groups()\<close>: \<open>None\<close> for a group that took no part in the match\<close>
  "m_groups m =
     map (map_option (\<lambda>(a, b). slice (m_string m) (int a) (int b))) (m_marks m)"

text \<open>Every end of a match lies at or after its start, inside the text.\<close>

definition extends :: "mstate \<Rightarrow> mstate \<Rightarrow> bool" where
  "extends s s' = (pos_of s \<le> pos_of s' \<and> pos_of s' + remaining s' = pos_of s + remaining s)"

lemma extends_refl: "extends s s"
  by (simp add: extends_def)

lemma extends_trans: "extends s s' \<Longrightarrow> extends s' s'' \<Longrightarrow> extends s s''"
  by (simp add: extends_def)

lemma one_char_extends: "s' \<in> set (one_char P s) \<Longrightarrow> extends s s'"
proof -
  obtain i p rest m where s: "s = (i, p, rest, m)" by (cases s)
  assume "s' \<in> set (one_char P s)"
  with s show ?thesis
    by (cases rest) (simp_all add: extends_def pos_of_def remaining_def split: if_splits)
qed

lemma star_ends_extends:
  "(\<And>s s'. s' \<in> set (f s) \<Longrightarrow> extends s s') \<Longrightarrow> s' \<in> set (star_ends f s) \<Longrightarrow> extends s s'"
proof (induction f s arbitrary: s' rule: star_ends.induct)
  case (1 f s)
  from "1.prems"(2) consider "s' = s"
    | x where "x \<in> set (f s)" "remaining x < remaining s" "s' \<in> set (star_ends f x)"
    by (subst (asm) star_ends.simps) auto
  then show ?case
  proof cases
    case 1
    then show ?thesis by (simp add: extends_refl)
  next
    case 2
    from 2(1,2) have "x \<in> set (filter (\<lambda>s'. remaining s' < remaining s) (f s))" by simp
    from "1.IH" [OF this "1.prems"(1) 2(3)] have "extends x s'" .
    with "1.prems"(1) [OF 2(1)] show ?thesis by (rule extends_trans)
  qed
qed

lemma ends_extends: "s' \<in> set (ends r s) \<Longrightarrow> extends s s'"
proof (induction r arbitrary: s s')
  case (Lit p)
  then show ?case by (simp add: one_char_extends)
next
  case Digit
  then show ?case by (simp add: one_char_extends)
next
  case Space
  then show ?case by (simp add: one_char_extends)
next
  case (In rs)
  then show ?case by (simp add: one_char_extends)
next
  case WordBoundary
  obtain i p rest m where s: "s = (i, p, rest, m)" by (cases s)
  with WordBoundary show ?case by (simp add: extends_refl split: if_splits)
next
  case Eps
  then show ?case by (simp add: extends_refl)
next
  case (Seq a b)
  from Seq.prems obtain x where "x \<in> set (ends a s)" "s' \<in> set (ends b x)"
    by auto
  with Seq.IH show ?case by (blast intro: extends_trans)
next
  case (Alt a b)
  from Alt.prems have "s' \<in> set (ends a s) \<or> s' \<in> set (ends b s)" by simp
  with Alt.IH show ?case by blast
next
  case (Star r)
  from Star.prems have "s' \<in> set (star_ends (ends r) s)" by simp
  with Star.IH show ?case by (rule star_ends_extends)
next
  case (Group n r)
  obtain i p rest m where s: "s = (i, p, rest, m)" by (cases s)
  obtain j q rest' m' where s': "s' = (j, q, rest', m')" by (cases s')
  from Group.prems s s' obtain m'' where "(j, q, rest', m'') \<in> set (ends r s)"
    by auto
  from Group.IH [OF this] s' show ?case by (simp add: extends_def pos_of_def remaining_def)
qed

lemma accepted_extends:
  "s' \<in> set (accepted r (i, p, rest) ma) \<Longrightarrow>
     i \<le> pos_of s' \<and> pos_of s' + remaining s' = i + length rest \<and> \<not> (ma \<and> pos_of s' = i)"
proof -
  assume "s' \<in> set (accepted r (i, p, rest) ma)"
  then have e: "s' \<in> set (ends r (i, p, rest, init_marks r))" and a: "\<not> (ma \<and> pos_of s' = i)"
    by (simp_all add: accepted_def)
  from ends_extends [OF e] a show ?thesis
    by (simp add: extends_def pos_of_def remaining_def)
qed

lemma search_bounds:
  "search r (i, p, rest) ma = Some (i', s') \<Longrightarrow>
     i \<le> i' \<and> i' \<le> pos_of s' \<and> pos_of s' + remaining s' = i + length rest
       \<and> \<not> (ma \<and> i' = i \<and> pos_of s' = i')"
proof (induction r "(i, p, rest)" ma arbitrary: i p rest rule: search.induct)
  case (1 r i p rest ma)
  show ?case
  proof (cases "accepted r (i, p, rest) ma")
    case (Cons s ss)
    with "1.prems" have eq: "i' = i" "s' = s"
      by (simp_all add: search.simps)
    from Cons eq have "s' \<in> set (accepted r (i, p, rest) ma)" by simp
    from accepted_extends [OF this] eq show ?thesis by simp
  next
    case Nil
    show ?thesis
    proof (cases rest)
      case Nil': Nil
      with Nil "1.prems" show ?thesis by (simp add: search.simps)
    next
      case (Cons c cs)
      with Nil "1.prems" have "search r (i + 1, Some c, cs) False = Some (i', s')"
        by (simp add: search.simps)
      from "1.hyps" [OF Nil Cons this] Cons show ?thesis by simp
    qed
  qed
qed

text \<open>
  The loop of the scanner behind \<open>re.finditer\<close>: the next search starts where the match
  ended, and must advance when the match was empty.
\<close>

function scan :: "regex \<Rightarrow> string \<Rightarrow> nat \<times> char option \<times> string \<Rightarrow> bool \<Rightarrow> rematch list" where
  "scan r t st must_advance =
     (case search r st must_advance of
        None \<Rightarrow> []
      | Some (i, j, q, rest, m) \<Rightarrow>
          \<lparr>m_string = t, m_start = i, m_end = j, m_marks = m\<rparr> # scan r t (j, q, rest) (j = i))"
  by pat_completeness simp
termination
proof (relation "measure (\<lambda>(r, t, st, ma). 2 * length (snd (snd st)) + (if ma then 0 else 1))",
    goal_cases)
  case 1
  show ?case by simp
next
  case (2 r t st ma x i y j z q w rest m)
  obtain i0 p0 rest0 where st: "st = (i0, p0, rest0)" by (cases st)
  from 2 st have "search r (i0, p0, rest0) ma = Some (i, j, q, rest, m)" by simp
  from search_bounds [OF this] st show ?case
    by (simp add: pos_of_def remaining_def) arith
qed

declare scan.simps [simp del]

definition finditer :: "regex \<Rightarrow> string \<Rightarrow> rematch list" where
  "finditer r t = scan r t (0, None, t) False"

section \<open>Dictionaries\<close>

text \<open>
  A \<open>dict\<close> keeps its keys in insertion order, and the loops of the program walk it in
  that order: it is an association list, each key once.
\<close>

type_synonym ('k, 'v) dict = "('k \<times> 'v) list"

fun dd_append :: "'k \<Rightarrow> 'v \<Rightarrow> ('k, 'v list) dict \<Rightarrow> ('k, 'v list) dict" where
  \<comment> \<open>\<open>d[k].append(v)\<close> on a \<open>defaultdict(list)\<close>: a missing key enters with an empty list\<close>
  "dd_append k v [] = [(k, [v])]"
| "dd_append k v ((k', vs) # d) =
     (if k = k' then (k', vs @ [v]) # d else (k', vs) # dd_append k v d)"

fun dict_set :: "'k \<Rightarrow> 'v \<Rightarrow> ('k, 'v) dict \<Rightarrow> ('k, 'v) dict" where
  \<comment> \<open>\<open>d[k] = v\<close>\<close>
  "dict_set k v [] = [(k, v)]"
| "dict_set k v ((k', v') # d) =
     (if k = k' then (k', v) # d else (k', v') # dict_set k v d)"

definition keys :: "('k, 'v) dict \<Rightarrow> 'k list" where
  "keys d = map fst d"

definition dict_values :: "('k, 'v) dict \<Rightarrow> 'v list" where
  "dict_values d = map snd d"

definition lookup :: "('k, 'v) dict \<Rightarrow> 'k \<Rightarrow> 'v option" where
  "lookup d k = map_of d k"

section \<open>The finder\<close>

record finder =
  patterns :: "(string, regex) dict"

definition USC :: regex where
  \<comment> \<open>\<open>\b(\d+)\s+U\.?S\.?C\.?\s+S?\s*(\d+[a-z]?(?:-\d+)?)\<close>, \<open>S\<close> the section sign\<close>
  "USC = seq [WordBoundary, Group 1 (Plus Digit), Plus Space,
     Lit CHR ''U'', Opt (Lit CHR ''.''), Lit CHR ''S'', Opt (Lit CHR ''.''),
     Lit CHR ''C'', Opt (Lit CHR ''.''), Plus Space, Opt (Lit section_sign), Star Space,
     Group 2 (seq [Plus Digit, Opt (In [(CHR ''a'', CHR ''z'')]),
       Opt (seq [Lit CHR ''-'', Plus Digit])])]"

definition CFR :: regex where
  \<comment> \<open>\<open>\b(\d+)\s+C\.?F\.?R\.?\s+S?\s*(\d+(?:\.\d+)?)\<close>\<close>
  "CFR = seq [WordBoundary, Group 1 (Plus Digit), Plus Space,
     Lit CHR ''C'', Opt (Lit CHR ''.''), Lit CHR ''F'', Opt (Lit CHR ''.''),
     Lit CHR ''R'', Opt (Lit CHR ''.''), Plus Space, Opt (Lit section_sign), Star Space,
     Group 2 (seq [Plus Digit, Opt (seq [Lit CHR ''.'', Plus Digit])])]"

definition State_Code :: regex where
  \<comment> \<open>\<open>\b([A-Z][a-z]+)\s+(?:Code|Stat\.?|Rev\.?\s+Stat\.?)\s+S?\s*(\d+(?:[.-]\d+)*)\<close>\<close>
  "State_Code = seq [WordBoundary,
     Group 1 (seq [In [(CHR ''A'', CHR ''Z'')], Plus (In [(CHR ''a'', CHR ''z'')])]),
     Plus Space,
     Alt (seq [Lit CHR ''C'', Lit CHR ''o'', Lit CHR ''d'', Lit CHR ''e''])
      (Alt (seq [Lit CHR ''S'', Lit CHR ''t'', Lit CHR ''a'', Lit CHR ''t'', Opt (Lit CHR ''.'')])
        (seq [Lit CHR ''R'', Lit CHR ''e'', Lit CHR ''v'', Opt (Lit CHR ''.''), Plus Space,
           Lit CHR ''S'', Lit CHR ''t'', Lit CHR ''a'', Lit CHR ''t'', Opt (Lit CHR ''.'')])),
     Plus Space, Opt (Lit section_sign), Star Space,
     Group 2 (seq [Plus Digit,
       Star (seq [In [(CHR ''.'', CHR ''.''), (CHR ''-'', CHR ''-'')], Plus Digit])])]"

definition Section_Only :: regex where
  \<comment> \<open>\<open>S\s*(\d+(?:[.-]\d+[a-z]?)*)\<close>\<close>
  "Section_Only = seq [Lit section_sign, Star Space,
     Group 1 (seq [Plus Digit,
       Star (seq [In [(CHR ''.'', CHR ''.''), (CHR ''-'', CHR ''-'')], Plus Digit,
         Opt (In [(CHR ''a'', CHR ''z'')])])])]"

definition Statute_Year :: regex where
  \<comment> \<open>\<open>\b(Pub\.?\s+L\.?\s+No\.?\s+)(\d+-\d+)\<close>\<close>
  "Statute_Year = seq [WordBoundary,
     Group 1 (seq [Lit CHR ''P'', Lit CHR ''u'', Lit CHR ''b'', Opt (Lit CHR ''.''), Plus Space,
       Lit CHR ''L'', Opt (Lit CHR ''.''), Plus Space,
       Lit CHR ''N'', Lit CHR ''o'', Opt (Lit CHR ''.''), Plus Space]),
     Group 2 (seq [Plus Digit, Lit CHR ''-'', Plus Digit])]"

definition init :: finder where
  \<comment> \<open>\<open>__init__\<close>\<close>
  "init = \<lparr>patterns = [(''USC'', USC), (''CFR'', CFR), (''State_Code'', State_Code),
     (''Section_Only'', Section_Only), (''Statute_Year'', Statute_Year)]\<rparr>"

record ref_data =
  full_text :: string
  position :: "nat \<times> nat"
  groups :: "string option list"

definition ref_of :: "rematch \<Rightarrow> ref_data" where
  "ref_of m = \<lparr>full_text = group0 m, position = span m, groups = m_groups m\<rparr>"

definition find_references :: "finder \<Rightarrow> string \<Rightarrow> (string, ref_data list) dict" where
  "find_references self text =
     fold (\<lambda>(ref_type, pattern) results.
             fold (\<lambda>m results. dd_append ref_type (ref_of m) results)
               (finditer pattern text) results)
       (patterns self) []"

definition get_unique_references :: "finder \<Rightarrow> string \<Rightarrow> (string, string set) dict" where
  "get_unique_references self text =
     (let refs = find_references self text
      in fold (\<lambda>(ref_type, ref_list) unique_refs.
                 dict_set ref_type (set (map full_text ref_list)) unique_refs)
           refs [])"

definition context_of :: "string \<Rightarrow> string \<Rightarrow> nat \<Rightarrow> string" where
  \<comment> \<open>the context of a citation at a position: 50 characters before and after\<close>
  "context_of text citation pos =
     (let start = max 0 (int pos - 50);
          end = min (int (length text)) (int pos + int (length citation) + 50)
      in replace_char (CHR 0x0A) CHR '' '' (slice text start end))"

definition create_cross_reference_map ::
  "finder \<Rightarrow> string \<Rightarrow> (string, (nat \<times> string) list) dict" where
  "create_cross_reference_map self text =
     (let refs = find_references self text
      in fold (\<lambda>(ref_type, ref_list) xref_map.
                 fold (\<lambda>ref xref_map.
                         (let citation = full_text ref;
                              pos = fst (position ref)
                          in dd_append citation (pos, context_of text citation pos) xref_map))
                   ref_list xref_map)
           refs [])"

record analysis =
  total_references :: nat
  unique_references :: nat
  by_type :: "(string, nat) dict"
  unique_citations :: "(string, string set) dict"
  cross_reference_map :: "(string, (nat \<times> string) list) dict"
  all_references :: "(string, ref_data list) dict"

definition analyze_document :: "finder \<Rightarrow> string \<Rightarrow> analysis" where
  "analyze_document self text =
     (let all_refs = find_references self text;
          unique_refs = get_unique_references self text;
          xref_map = create_cross_reference_map self text;
          total_refs = sum_list (map length (dict_values all_refs));
          unique_count = sum_list (map card (dict_values unique_refs))
      in \<lparr>total_references = total_refs,
          unique_references = unique_count,
          by_type = fold (\<lambda>(k, v) d. dict_set k (length v) d) all_refs [],
          unique_citations = unique_refs,
          cross_reference_map = xref_map,
          all_references = all_refs\<rparr>)"

section \<open>Notions for stating the properties\<close>

fun nullable :: "regex \<Rightarrow> bool" where
  "nullable (Lit p) = False"
| "nullable Digit = False"
| "nullable Space = False"
| "nullable (In rs) = False"
| "nullable WordBoundary = True"
| "nullable Eps = True"
| "nullable (Seq a b) = (nullable a \<and> nullable b)"
| "nullable (Alt a b) = (nullable a \<or> nullable b)"
| "nullable (Star r) = True"
| "nullable (Group n r) = nullable r"

definition entries :: "('k, 'v list) dict \<Rightarrow> 'k \<Rightarrow> 'v list" where
  "entries d k = (case lookup d k of None \<Rightarrow> [] | Some vs \<Rightarrow> vs)"

definition family_refs :: "regex \<Rightarrow> string \<Rightarrow> ref_data list" where
  "family_refs p text = map ref_of (finditer p text)"

definition wf_finder :: "finder \<Rightarrow> bool" where
  "wf_finder self = distinct (keys (patterns self))"

definition tagged :: "finder \<Rightarrow> string \<Rightarrow> (string \<times> ref_data) list" where
  "tagged self text =
     concat (map (\<lambda>(k, p). map (\<lambda>r. (k, r)) (family_refs p text)) (patterns self))"

definition scenario :: string where
  \<comment> \<open>the text of the scenario: two citations of the U.S. Code and one of the C.F.R.\<close>
  "scenario = ''42 U.S.C. '' @ [section_sign]
     @ '' 1983 grants relief. See also 42 USC 1983 and 29 CFR 1910.1200.''"

definition location :: "string \<Rightarrow> ref_data \<Rightarrow> nat \<times> string" where
  "location text r = (fst (position r), context_of text (full_text r) (fst (position r)))"

definition all_refs_in_order :: "finder \<Rightarrow> string \<Rightarrow> ref_data list" where
  "all_refs_in_order self text = concat (map snd (find_references self text))"

definition padded :: string where
  \<comment> \<open>a bare section citation with 50 characters on each side, one of them a newline\<close>
  "padded = replicate 49 CHR ''.'' @ [CHR 0x0A] @ [section_sign] @ '' 7'' @ replicate 50 CHR ''.''"

section \<open>Properties of the matcher, the dictionaries and the scanner\<close>

lemma extends_pos: "extends s s' \<Longrightarrow> pos_of s \<le> pos_of s'"
  by (simp add: extends_def)

lemma one_char_advances: "s' \<in> set (one_char P s) \<Longrightarrow> pos_of s < pos_of s'"
proof -
  obtain i p rest m where s: "s = (i, p, rest, m)" by (cases s)
  assume "s' \<in> set (one_char P s)"
  with s show ?thesis
    by (cases rest) (simp_all add: pos_of_def split: if_splits)
qed

lemma ends_advances: "\<not> nullable r \<Longrightarrow> s' \<in> set (ends r s) \<Longrightarrow> pos_of s < pos_of s'"
proof (induction r arbitrary: s s')
  case (Seq a b)
  from Seq.prems(2) obtain x where x: "x \<in> set (ends a s)" "s' \<in> set (ends b x)"
    by auto
  from x have le: "pos_of s \<le> pos_of x" "pos_of x \<le> pos_of s'"
    by (simp_all add: ends_extends extends_pos)
  from Seq.prems(1) have "\<not> nullable a \<or> \<not> nullable b" by simp
  then show ?case
  proof
    assume "\<not> nullable a"
    from Seq.IH(1) [OF this x(1)] le show ?thesis by simp
  next
    assume "\<not> nullable b"
    from Seq.IH(2) [OF this x(2)] le show ?thesis by simp
  qed
next
  case (Alt a b)
  from Alt.prems(1) have n: "\<not> nullable a" "\<not> nullable b" by simp_all
  from Alt.prems(2) have "s' \<in> set (ends a s) \<or> s' \<in> set (ends b s)" by simp
  with Alt.IH(1) [OF n(1)] Alt.IH(2) [OF n(2)] show ?case by blast
next
  case (Group n r)
  obtain i p rest m where s: "s = (i, p, rest, m)" by (cases s)
  obtain j q rest' m' where s': "s' = (j, q, rest', m')" by (cases s')
  from Group.prems(2) s s' obtain m'' where "(j, q, rest', m'') \<in> set (ends r s)"
    by auto
  from Group.IH [OF _ this] Group.prems(1) s' show ?case by (simp add: pos_of_def)
qed (simp_all add: one_char_advances)

lemma search_accepts:
  "search r (i, p, rest) ma = Some (i', s') \<Longrightarrow>
     \<exists>p' rest'. s' \<in> set (ends r (i', p', rest', init_marks r))"
proof (induction r "(i, p, rest)" ma arbitrary: i p rest rule: search.induct)
  case (1 r i p rest ma)
  show ?case
  proof (cases "accepted r (i, p, rest) ma")
    case (Cons s ss)
    with "1.prems" have eq: "i' = i" "s' = s"
      by (simp_all add: search.simps)
    from Cons eq have "s' \<in> set (accepted r (i, p, rest) ma)" by simp
    then have "s' \<in> set (ends r (i, p, rest, init_marks r))" by (simp add: accepted_def)
    with eq show ?thesis by blast
  next
    case Nil
    show ?thesis
    proof (cases rest)
      case Nil': Nil
      with Nil "1.prems" show ?thesis by (simp add: search.simps)
    next
      case (Cons c cs)
      with Nil "1.prems" have "search r (i + 1, Some c, cs) False = Some (i', s')"
        by (simp add: search.simps)
      from "1.hyps" [OF Nil Cons this] show ?thesis .
    qed
  qed
qed

lemma scan_unfold:
  "scan r t st ma =
     (case search r st ma of
        None \<Rightarrow> []
      | Some (i, j, q, rest, m) \<Rightarrow>
          \<lparr>m_string = t, m_start = i, m_end = j, m_marks = m\<rparr> # scan r t (j, q, rest) (j = i))"
  by (rule scan.simps)

lemma scan_sound:
  "m \<in> set (scan r t (i, p, rest) ma) \<Longrightarrow> i + length rest = n \<Longrightarrow>
     m_string m = t \<and> i \<le> m_start m \<and> m_start m \<le> m_end m \<and> m_end m \<le> n
       \<and> (\<not> nullable r \<longrightarrow> m_start m < m_end m)"
proof (induction r t "(i, p, rest)" ma arbitrary: i p rest rule: scan.induct)
  case (1 r t ma i p rest)
  show ?case
  proof (cases "search r (i, p, rest) ma")
    case None
    with "1.prems"(1) show ?thesis by (simp add: scan.simps)
  next
    case (Some x)
    obtain i' j q rest' mk where x: "x = (i', j, q, rest', mk)" by (cases x)
    from Some x have s: "search r (i, p, rest) ma = Some (i', (j, q, rest', mk))" by simp
    from search_bounds [OF s] have b: "i \<le> i'" "i' \<le> j" "j + length rest' = i + length rest"
      by (simp_all add: pos_of_def remaining_def)
    from search_accepts [OF s] obtain p' r' where
      "(j, q, rest', mk) \<in> set (ends r (i', p', r', init_marks r))" by blast
    then have adv: "\<not> nullable r \<Longrightarrow> i' < j"
      using ends_advances [of r "(j, q, rest', mk)" "(i', p', r', init_marks r)"]
      by (simp add: pos_of_def)
    from "1.prems"(1) s have
      "m = \<lparr>m_string = t, m_start = i', m_end = j, m_marks = mk\<rparr>
        \<or> m \<in> set (scan r t (j, q, rest') (j = i'))"
      by (subst (asm) scan.simps) simp
    then show ?thesis
    proof
      assume "m = \<lparr>m_string = t, m_start = i', m_end = j, m_marks = mk\<rparr>"
      with b "1.prems"(2) adv show ?thesis by auto
    next
      assume "m \<in> set (scan r t (j, q, rest') (j = i'))"
      from "1.hyps" [OF s refl refl refl refl this] b "1.prems"(2)
      show ?thesis by simp
    qed
  qed
qed

lemma finditer_sound:
  "m \<in> set (finditer r t) \<Longrightarrow>
     m_string m = t \<and> m_start m \<le> m_end m \<and> m_end m \<le> length t
       \<and> (\<not> nullable r \<longrightarrow> m_start m < m_end m)"
  using scan_sound [of m r t 0 None t False "length t"] by (simp add: finditer_def)

lemma scan_sorted:
  "sorted_wrt (\<lambda>a b. m_end a \<le> m_start b) (scan r t (i, p, rest) ma)"
proof (induction r t "(i, p, rest)" ma arbitrary: i p rest rule: scan.induct)
  case (1 r t ma i p rest)
  show ?case
  proof (cases "search r (i, p, rest) ma")
    case None
    then show ?thesis by (simp add: scan.simps)
  next
    case (Some x)
    obtain i' j q rest' mk where x: "x = (i', j, q, rest', mk)" by (cases x)
    from Some x have s: "search r (i, p, rest) ma = Some (i', (j, q, rest', mk))" by simp
    have later: "j \<le> m_start m" if "m \<in> set (scan r t (j, q, rest') (j = i'))" for m
      using scan_sound [OF that refl] by simp
    from "1.hyps" [OF s refl refl refl refl]
    have "sorted_wrt (\<lambda>a b. m_end a \<le> m_start b) (scan r t (j, q, rest') (j = i'))" .
    with later s show ?thesis
      by (subst scan.simps) simp
  qed
qed

lemma finditer_ascending:
  assumes "\<not> nullable r"
  shows "sorted_wrt (<) (map m_start (finditer r t))"
proof -
  have "sorted_wrt (\<lambda>a b. m_end a \<le> m_start b) (finditer r t)"
    by (simp add: finditer_def scan_sorted)
  then have "sorted_wrt (\<lambda>a b. m_start a < m_start b) (finditer r t)"
  proof (rule sorted_wrt_mono_rel [rotated])
    fix a b
    assume "a \<in> set (finditer r t)" "b \<in> set (finditer r t)" "m_end a \<le> m_start b"
    with finditer_sound [of a r t] assms show "m_start a < m_start b" by simp
  qed
  then show ?thesis by (simp add: sorted_wrt_map)
qed

lemma keys_dd_append:
  "keys (dd_append k v d) = (if k \<in> set (keys d) then keys d else keys d @ [k])"
  by (induction d) (force simp: keys_def)+

lemma distinct_dd_append: "distinct (keys d) \<Longrightarrow> distinct (keys (dd_append k v d))"
  by (simp add: keys_dd_append)

lemma lookup_dd_append:
  "lookup (dd_append k v d) k' =
     (if k' = k then Some (entries d k @ [v]) else lookup d k')"
  by (induction d) (auto simp: lookup_def entries_def)

lemma entries_dd_append:
  "entries (dd_append k v d) k' = (if k' = k then entries d k @ [v] else entries d k')"
  by (simp add: entries_def lookup_dd_append)

lemma lookup_None_iff: "lookup d k = None \<longleftrightarrow> k \<notin> set (keys d)"
  by (simp add: lookup_def keys_def map_of_eq_None_iff)

lemma dd_append_fresh: "k \<notin> set (keys d) \<Longrightarrow> dd_append k v d = d @ [(k, [v])]"
  by (induction d) (auto simp: keys_def)

lemma dd_append_last:
  "k \<notin> set (keys d) \<Longrightarrow> dd_append k v (d @ [(k, vs)]) = d @ [(k, vs @ [v])]"
  by (induction d) (auto simp: keys_def)

lemma fold_dd_append_last:
  "k \<notin> set (keys d) \<Longrightarrow>
     fold (\<lambda>x. dd_append k (f x)) xs (d @ [(k, vs)]) = d @ [(k, vs @ map f xs)]"
  by (induction xs arbitrary: vs) (simp_all add: dd_append_last)

lemma fold_dd_append_fresh:
  "k \<notin> set (keys d) \<Longrightarrow>
     fold (\<lambda>x. dd_append k (f x)) xs d = (if xs = [] then d else d @ [(k, map f xs)])"
proof (cases xs)
  case Nil
  then show ?thesis by simp
next
  case (Cons x xs')
  assume "k \<notin> set (keys d)"
  with Cons show ?thesis
    using fold_dd_append_last [of k d f xs' "[f x]"] by (simp add: dd_append_fresh)
qed

text \<open>Appending under keys computed from the elements.\<close>

lemma keys_fold_dd_append:
  "set (keys (fold (\<lambda>x. dd_append (key x) (val x)) xs d)) = set (keys d) \<union> key ` set xs"
  by (induction xs arbitrary: d) (auto simp: keys_dd_append)

lemma distinct_fold_dd_append:
  "distinct (keys d) \<Longrightarrow> distinct (keys (fold (\<lambda>x. dd_append (key x) (val x)) xs d))"
  by (induction xs arbitrary: d) (simp_all add: distinct_dd_append)

lemma entries_fold_dd_append:
  "entries (fold (\<lambda>x. dd_append (key x) (val x)) xs d) k =
     entries d k @ map val (filter (\<lambda>x. key x = k) xs)"
  by (induction xs arbitrary: d) (simp_all add: entries_dd_append)

lemma dict_set_fresh: "k \<notin> set (keys d) \<Longrightarrow> dict_set k v d = d @ [(k, v)]"
  by (induction d) (auto simp: keys_def)

lemma fold_dict_set_distinct:
  "distinct (map fst xs) \<Longrightarrow> set (keys d) \<inter> set (map fst xs) = {} \<Longrightarrow>
     fold (\<lambda>(k, v) d. dict_set k (g v) d) xs d = d @ map (\<lambda>(k, v). (k, g v)) xs"
proof (induction xs arbitrary: d)
  case Nil
  then show ?case by simp
next
  case (Cons x xs)
  obtain k v where x: "x = (k, v)" by (cases x)
  from Cons.prems x have fresh: "k \<notin> set (keys d)" by auto
  from Cons.prems x have "set (keys (d @ [(k, g v)])) \<inter> set (map fst xs) = {}"
    by (auto simp: keys_def)
  from Cons.IH [OF _ this] Cons.prems(1) x fresh show ?case
    by (simp add: dict_set_fresh)
qed

lemma fold_families:
  "distinct (map fst ps) \<Longrightarrow> set (keys d) \<inter> set (map fst ps) = {} \<Longrightarrow>
     fold (\<lambda>(ref_type, pattern) results.
             fold (\<lambda>m results. dd_append ref_type (ref_of m) results)
               (finditer pattern text) results) ps d
       = d @ filter (\<lambda>(k, refs). refs \<noteq> []) (map (\<lambda>(k, p). (k, family_refs p text)) ps)"
proof (induction ps arbitrary: d)
  case Nil
  then show ?case by simp
next
  case (Cons x ps)
  obtain k p where x: "x = (k, p)" by (cases x)
  let ?d' = "fold (\<lambda>m. dd_append k (ref_of m)) (finditer p text) d"
  from Cons.prems x have fresh: "k \<notin> set (keys d)" by auto
  then have d': "?d' = (if finditer p text = [] then d else d @ [(k, family_refs p text)])"
    by (simp add: fold_dd_append_fresh family_refs_def)
  from Cons.prems x have "set (keys ?d') \<inter> set (map fst ps) = {}"
    by (auto simp: d' keys_def)
  from Cons.IH [OF _ this] Cons.prems(1) x show ?case
    by (simp add: d' family_refs_def)
qed

lemma find_references_eq:
  "wf_finder self \<Longrightarrow>
     find_references self text =
       filter (\<lambda>(k, refs). refs \<noteq> []) (map (\<lambda>(k, p). (k, family_refs p text)) (patterns self))"
  using fold_families [of "patterns self" "[]" "text"]
  by (simp add: find_references_def wf_finder_def keys_def)

lemma fold_families_tagged:
  "fold (\<lambda>(ref_type, pattern) results.
           fold (\<lambda>m results. dd_append ref_type (ref_of m) results)
             (finditer pattern text) results) ps d
     = fold (\<lambda>x. dd_append (fst x) (snd x))
         (concat (map (\<lambda>(k, p). map (\<lambda>r. (k, r)) (family_refs p text)) ps)) d"
proof (induction ps arbitrary: d)
  case Nil
  show ?case by simp
next
  case (Cons x ps)
  obtain k p where x: "x = (k, p)" by (cases x)
  have "fold (\<lambda>m. dd_append k (ref_of m)) ms d
      = fold (\<lambda>x. dd_append (fst x) (snd x)) (map (\<lambda>r. (k, r)) (map ref_of ms)) d" for ms
    by (simp add: fold_map comp_def)
  with Cons.IH x show ?case by (simp add: family_refs_def)
qed

lemma find_references_tagged:
  "find_references self text = fold (\<lambda>x. dd_append (fst x) (snd x)) (tagged self text) []"
  by (simp add: find_references_def tagged_def fold_families_tagged)

lemma distinct_find_references: "distinct (keys (find_references self text))"
  unfolding find_references_tagged by (rule distinct_fold_dd_append) (simp add: keys_def)

lemma keys_find_references:
  "set (keys (find_references self text)) = fst ` set (tagged self text)"
  unfolding find_references_tagged keys_fold_dd_append by (simp add: keys_def)

lemma entries_find_references:
  "entries (find_references self text) k =
     map snd (filter (\<lambda>x. fst x = k) (tagged self text))"
  unfolding find_references_tagged entries_fold_dd_append by (simp add: entries_def lookup_def)

lemma entries_member: "distinct (keys d) \<Longrightarrow> (k, vs) \<in> set d \<Longrightarrow> entries d k = vs"
  by (simp add: entries_def lookup_def keys_def)

lemma tagged_member:
  "(k, r) \<in> set (tagged self text) \<longleftrightarrow>
     (\<exists>p m. (k, p) \<in> set (patterns self) \<and> m \<in> set (finditer p text) \<and> r = ref_of m)"
  by (auto simp: tagged_def family_refs_def)

lemma find_references_sources:
  assumes "(fam, refs) \<in> set (find_references self text)" and "r \<in> set refs"
  shows "\<exists>p m. (fam, p) \<in> set (patterns self) \<and> m \<in> set (finditer p text) \<and> r = ref_of m"
proof -
  from assms(1) have "entries (find_references self text) fam = refs"
    by (rule entries_member [OF distinct_find_references])
  with assms(2) have "(fam, r) \<in> set (tagged self text)"
    by (auto simp: entries_find_references)
  then show ?thesis by (simp add: tagged_member)
qed

lemma clip_index_nat: "n \<le> len \<Longrightarrow> clip_index (int n) len = n"
  by (simp add: clip_index_def)

lemma slice_nat:
  "a \<le> b \<Longrightarrow> b \<le> length xs \<Longrightarrow>
     slice xs (int a) (int b) = take (b - a) (drop a xs) \<and> length (slice xs (int a) (int b)) = b - a"
  by (simp add: slice_def clip_index_nat)

lemma get_unique_references_eq:
  "get_unique_references self text =
     map (\<lambda>(k, l). (k, set (map full_text l))) (find_references self text)"
  using fold_dict_set_distinct [of "find_references self text" "[]" "\<lambda>l. set (map full_text l)"]
    distinct_find_references [of self "text"]
  by (simp add: get_unique_references_def keys_def)

lemma by_type_eq:
  "by_type (analyze_document self text) =
     map (\<lambda>(k, l). (k, length l)) (find_references self text)"
  using fold_dict_set_distinct [of "find_references self text" "[]" length]
    distinct_find_references [of self "text"]
  by (simp add: analyze_document_def keys_def Let_def)

lemma analysis_fields:
  "all_references (analyze_document self text) = find_references self text"
  "unique_citations (analyze_document self text) = get_unique_references self text"
  "cross_reference_map (analyze_document self text) = create_cross_reference_map self text"
  "total_references (analyze_document self text)
     = sum_list (map length (dict_values (find_references self text)))"
  "unique_references (analyze_document self text)
     = sum_list (map card (dict_values (get_unique_references self text)))"
  by (simp_all add: analyze_document_def Let_def)

lemma full_text_ref_of: "full_text (ref_of m) = group0 m"
  by (simp add: ref_of_def)

lemma sum_list_filter_zero:
  "(\<And>x. x \<in> set xs \<Longrightarrow> \<not> P x \<Longrightarrow> f x = (0::nat)) \<Longrightarrow>
     sum_list (map f (filter P xs)) = sum_list (map f xs)"
  by (induction xs) simp_all

lemma fold_items_concat:
  "fold (\<lambda>(k, l) acc. fold g l acc) d acc = fold g (concat (map snd d)) acc"
  by (induction d arbitrary: acc) (simp_all add: case_prod_unfold)

lemma create_cross_reference_map_eq:
  "create_cross_reference_map self text =
     fold (\<lambda>r. dd_append (full_text r) (location text r)) (all_refs_in_order self text) []"
proof -
  have "create_cross_reference_map self text =
      fold (\<lambda>(k, l) acc. fold (\<lambda>r. dd_append (full_text r) (location text r)) l acc)
        (find_references self text) []"
    by (simp add: create_cross_reference_map_def Let_def location_def)
  then show ?thesis
    by (simp only: fold_items_concat all_refs_in_order_def)
qed

lemma distinct_cross_reference_map: "distinct (keys (create_cross_reference_map self text))"
  unfolding create_cross_reference_map_eq
  by (rule distinct_fold_dd_append) (simp add: keys_def)

lemma keys_cross_reference_map:
  "set (keys (create_cross_reference_map self text)) = full_text ` set (all_refs_in_order self text)"
  unfolding create_cross_reference_map_eq keys_fold_dd_append by (simp add: keys_def)

lemma entries_cross_reference_map:
  "entries (create_cross_reference_map self text) k =
     map (location text) (filter (\<lambda>r. full_text r = k) (all_refs_in_order self text))"
  unfolding create_cross_reference_map_eq entries_fold_dd_append
  by (simp add: entries_def lookup_def)

lemma all_refs_sources:
  "r \<in> set (all_refs_in_order self text) \<Longrightarrow>
     \<exists>fam p m. (fam, p) \<in> set (patterns self) \<and> m \<in> set (finditer p text) \<and> r = ref_of m"
proof -
  assume "r \<in> set (all_refs_in_order self text)"
  then obtain fam refs where "(fam, refs) \<in> set (find_references self text)" "r \<in> set refs"
    by (auto simp: all_refs_in_order_def)
  from find_references_sources [OF this] show ?thesis by blast
qed

lemma all_refs_in_order_eq:
  assumes "wf_finder self"
  shows "all_refs_in_order self text
           = concat (map (\<lambda>(fam, p). family_refs p text) (patterns self))"
proof -
  have "concat (map snd (filter (\<lambda>(k, refs). refs \<noteq> []) d)) = concat (map snd d)"
    for d :: "(string, ref_data list) dict"
    by (induction d) auto
  then show ?thesis
    by (simp add: all_refs_in_order_def find_references_eq [OF assms] comp_def case_prod_unfold)
qed

lemma context_window:
  assumes "pos \<le> length text"
  shows "let a = max 0 (int pos - 50); b = min (int (length text)) (int pos + int n + 50)
         in 0 \<le> a \<and> a \<le> b \<and> b \<le> int (length text)
          \<and> slice text a b = take (nat b - nat a) (drop (nat a) text)
          \<and> length (slice text a b) = nat (b - a)"
proof -
  define a where "a = max 0 (int pos - 50)"
  define b where "b = min (int (length text)) (int pos + int n + 50)"
  from assms have ab: "0 \<le> a" "a \<le> b" "b \<le> int (length text)"
    by (simp_all add: a_def b_def)
  then have clip: "clip_index a (length text) = nat a" "clip_index b (length text) = nat b"
    by (simp_all add: clip_index_def)
  then have sl: "slice text a b = take (nat b - nat a) (drop (nat a) text)"
    by (simp add: slice_def Let_def)
  from ab have "length (take (nat b - nat a) (drop (nat a) text)) = nat (b - a)"
    by simp
  with ab sl show ?thesis
    unfolding a_def [symmetric] b_def [symmetric] Let_def by simp
qed

lemma length_replace_char: "length (replace_char old new s) = length s"
  by (simp add: replace_char_def)

lemma ref_of_match:
  assumes "m \<in> set (finditer p text)"
  shows "full_text (ref_of m) = group0 m" "fst (position (ref_of m)) = m_start m"
    "m_start m \<le> length text" "m_end m = m_start m + length (group0 m)"
proof -
  from finditer_sound [OF assms] have b: "m_string m = text" "m_start m \<le> m_end m"
    "m_end m \<le> length text" by simp_all
  from slice_nat [OF b(2,3), THEN conjunct2] b(1)
  have "length (group0 m) = m_end m - m_start m"
    by (simp add: group0_def)
  with b show "m_end m = m_start m + length (group0 m)" "m_start m \<le> length text"
    by simp_all
  show "full_text (ref_of m) = group0 m" "fst (position (ref_of m)) = m_start m"
    by (simp_all add: ref_of_def span_def)
qed

section \<open>Two texts, evaluated\<close>

lemma wf_init: "wf_finder init"
  by (simp add: wf_finder_def init_def keys_def)

lemma scenario_USC:
  "family_refs USC scenario =
     [\<lparr>full_text = ''42 U.S.C. '' @ [section_sign] @ '' 1983'', position = (0, 16),
        groups = [Some ''42'', Some ''1983'']\<rparr>,
      \<lparr>full_text = ''42 USC 1983'', position = (41, 52),
        groups = [Some ''42'', Some ''1983'']\<rparr>]"
  by code_simp

lemma scenario_CFR:
  "family_refs CFR scenario =
     [\<lparr>full_text = ''29 CFR 1910.1200'', position = (57, 73),
        groups = [Some ''29'', Some ''1910.1200'']\<rparr>]"
  by code_simp

lemma scenario_State_Code: "family_refs State_Code scenario = []"
  by code_simp

lemma scenario_Section_Only:
  "family_refs Section_Only scenario =
     [\<lparr>full_text = [section_sign] @ '' 1983'', position = (10, 16),
        groups = [Some ''1983'']\<rparr>]"
  by code_simp

lemma scenario_Statute_Year: "family_refs Statute_Year scenario = []"
  by code_simp

lemma scenario_refs:
  "find_references init scenario =
     [(''USC'', [\<lparr>full_text = ''42 U.S.C. '' @ [section_sign] @ '' 1983'', position = (0, 16),
                  groups = [Some ''42'', Some ''1983'']\<rparr>,
               \<lparr>full_text = ''42 USC 1983'', position = (41, 52),
                  groups = [Some ''42'', Some ''1983'']\<rparr>]),
      (''CFR'', [\<lparr>full_text = ''29 CFR 1910.1200'', position = (57, 73),
                  groups = [Some ''29'', Some ''1910.1200'']\<rparr>]),
      (''Section_Only'', [\<lparr>full_text = [section_sign] @ '' 1983'', position = (10, 16),
                  groups = [Some ''1983'']\<rparr>])]"
  unfolding find_references_eq [OF wf_init]
  by (simp add: init_def scenario_USC scenario_CFR scenario_State_Code scenario_Section_Only
      scenario_Statute_Year)

lemma family_refs_length: "length (finditer p t) = length (family_refs p t)"
  by (simp add: family_refs_def)

lemma family_refs_texts: "map group0 (finditer p t) = map full_text (family_refs p t)"
  by (simp add: family_refs_def comp_def full_text_ref_of)

lemma padded_xref:
  "create_cross_reference_map init padded =
     [([section_sign] @ '' 7'',
       [(50, replicate 49 CHR ''.'' @ '' '' @ [section_sign] @ '' 7'' @ replicate 50 CHR ''.'')])]"
  by code_simp

section \<open>The claims\<close>

text \<open>
  C1. Every match record that \<open>find_references\<close> returns, for any family, has a span
  \<open>(start, end)\<close> with \<open>0 \<le> start \<le> end \<le> len(text)\<close> (positions are natural numbers),
  and its \<open>full_text\<close> is exactly the slice \<open>text[start:end]\<close>.
\<close>

theorem find_references_span:
  assumes "(fam, refs) \<in> set (find_references self text)" and "r \<in> set refs"
  shows "fst (position r) \<le> snd (position r) \<and> snd (position r) \<le> length text
    \<and> full_text r = slice text (int (fst (position r))) (int (snd (position r)))
    \<and> full_text r = take (snd (position r) - fst (position r)) (drop (fst (position r)) text)
    \<and> length (full_text r) = snd (position r) - fst (position r)"
proof -
  from find_references_sources [OF assms] obtain p m where
    m: "m \<in> set (finditer p text)" and r: "r = ref_of m" by blast
  from finditer_sound [OF m] have b: "m_string m = text" "m_start m \<le> m_end m" "m_end m \<le> length text"
    by simp_all
  from slice_nat [OF b(2,3)] r b(1) show ?thesis
    using b(2,3) by (simp add: ref_of_def group0_def span_def)
qed

theorem find_references_span_witness:
  "(''CFR'', [\<lparr>full_text = ''29 CFR 1910.1200'', position = (57, 73),
       groups = [Some ''29'', Some ''1910.1200'']\<rparr>]) \<in> set (find_references init scenario)
   \<and> (57::nat) \<le> 73 \<and> 73 \<le> length scenario
   \<and> ''29 CFR 1910.1200'' = slice scenario 57 73"
proof -
  let ?r = "\<lparr>full_text = ''29 CFR 1910.1200'', position = (57, 73),
       groups = [Some ''29'', Some ''1910.1200'']\<rparr>"
  have h: "(''CFR'', [?r]) \<in> set (find_references init scenario)"
    by (simp add: scenario_refs)
  have "?r \<in> set [?r]" by simp
  from find_references_span [OF h this] h show ?thesis by simp
qed

text \<open>
  C2. Every pair \<open>(position, context)\<close> in the map of \<open>create_cross_reference_map\<close> comes from
  a match that starts at that position; its context is the window of the text from
  \<open>max(0, position - 50)\<close> to \<open>min(len(text), position + len(citation) + 50)\<close> with every
  newline replaced by a blank. Both bounds lie between 0 and the length of the text, so the
  slice reads nothing outside the text, and a match that starts at least 50 characters from
  the beginning and ends at least 50 characters from the end has a context of
  \<open>len(citation) + 100\<close> characters.
\<close>

theorem context_snippet:
  assumes "(k, locs) \<in> set (create_cross_reference_map self text)" and "(pos, ctx) \<in> set locs"
  shows "(\<exists>fam p m. (fam, p) \<in> set (patterns self) \<and> m \<in> set (finditer p text)
            \<and> group0 m = k \<and> m_start m = pos \<and> m_end m = pos + length k)
    \<and> (let a = max 0 (int pos - 50); b = min (int (length text)) (int pos + int (length k) + 50)
       in ctx = replace_char (CHR 0x0A) CHR '' '' (slice text a b)
        \<and> 0 \<le> a \<and> a \<le> b \<and> b \<le> int (length text)
        \<and> slice text a b = take (nat b - nat a) (drop (nat a) text)
        \<and> length ctx = nat (b - a))
    \<and> (50 \<le> pos \<and> pos + length k + 50 \<le> length text \<longrightarrow> length ctx = length k + 100)"
proof -
  from assms(1) have "entries (create_cross_reference_map self text) k = locs"
    by (rule entries_member [OF distinct_cross_reference_map])
  with assms(2) obtain r where r: "r \<in> set (all_refs_in_order self text)" "full_text r = k"
    "location text r = (pos, ctx)"
    by (auto simp: entries_cross_reference_map)
  from all_refs_sources [OF r(1)] obtain fam p m where
    m: "(fam, p) \<in> set (patterns self)" "m \<in> set (finditer p text)" "r = ref_of m" by blast
  from ref_of_match [OF m(2)] r(2,3) m(3) have
    facts: "group0 m = k" "m_start m = pos" "m_end m = pos + length k" "pos \<le> length text"
    and ctx: "ctx = context_of text k pos"
    by (auto simp: location_def)
  from m(1,2) facts have 1: "\<exists>fam p m. (fam, p) \<in> set (patterns self) \<and> m \<in> set (finditer p text)
            \<and> group0 m = k \<and> m_start m = pos \<and> m_end m = pos + length k" by blast
  from context_window [OF facts(4), of "length k"] ctx
  have 2: "let a = max 0 (int pos - 50); b = min (int (length text)) (int pos + int (length k) + 50)
       in ctx = replace_char (CHR 0x0A) CHR '' '' (slice text a b)
        \<and> 0 \<le> a \<and> a \<le> b \<and> b \<le> int (length text)
        \<and> slice text a b = take (nat b - nat a) (drop (nat a) text)
        \<and> length ctx = nat (b - a)"
    by (simp add: Let_def context_of_def length_replace_char)
  from 2 have 3: "50 \<le> pos \<and> pos + length k + 50 \<le> length text \<longrightarrow> length ctx = length k + 100"
    by (auto simp: Let_def min_def max_def)
  from 1 2 3 show ?thesis by blast
qed


theorem context_snippet_witness:
  "([section_sign] @ '' 7'',
      [(50, replicate 49 CHR ''.'' @ '' '' @ [section_sign] @ '' 7'' @ replicate 50 CHR ''.'')])
     \<in> set (create_cross_reference_map init padded)
   \<and> (50::nat) \<le> 50 \<and> 50 + length ([section_sign] @ '' 7'') + 50 \<le> length padded
   \<and> length (replicate 49 CHR ''.'' @ '' '' @ [section_sign] @ '' 7'' @ replicate 50 CHR ''.'')
       = length ([section_sign] @ '' 7'') + 100"
proof -
  let ?k = "[section_sign] @ '' 7''"
  let ?ctx = "replicate 49 CHR ''.'' @ '' '' @ [section_sign] @ '' 7'' @ replicate 50 CHR ''.''"
  have h: "(?k, [(50, ?ctx)]) \<in> set (create_cross_reference_map init padded)"
    by (simp add: padded_xref)
  have mem: "(50, ?ctx) \<in> set [(50, ?ctx)]" by simp
  have len: "(50::nat) \<le> 50 \<and> 50 + length ?k + 50 \<le> length padded"
    by (simp add: padded_def)
  note snippet = context_snippet [OF h mem, THEN conjunct2, THEN conjunct2]
  from snippet len have "length ?ctx = length ?k + 100" by (rule mp)
  with h len show ?thesis by blast
qed

text \<open>
  C4. \<open>total_references\<close> is the sum, over the families of the pattern table, of the number
  of raw matches of the family, and \<open>unique_references\<close> is the sum, over the families, of
  the number of distinct matched strings of the family: a string that two families match
  counts once for each of them.
\<close>

theorem analyze_document_counts:
  assumes "wf_finder self"
  shows "total_references (analyze_document self text)
           = sum_list (map (\<lambda>(fam, p). length (finditer p text)) (patterns self))
       \<and> unique_references (analyze_document self text)
           = sum_list (map (\<lambda>(fam, p). card (set (map group0 (finditer p text)))) (patterns self))"
proof -
  let ?all = "map (\<lambda>(k, p). (k, family_refs p text)) (patterns self)"
  have refs: "find_references self text = filter (\<lambda>(k, refs). refs \<noteq> []) ?all"
    by (rule find_references_eq [OF assms])
  have "sum_list (map length (dict_values (find_references self text)))
      = sum_list (map (\<lambda>x. length (snd x)) (filter (\<lambda>(k, refs). refs \<noteq> []) ?all))"
    by (simp add: refs dict_values_def comp_def)
  also have "\<dots> = sum_list (map (\<lambda>x. length (snd x)) ?all)"
    by (rule sum_list_filter_zero) auto
  also have "\<dots> = sum_list (map (\<lambda>(fam, p). length (finditer p text)) (patterns self))"
    by (simp add: comp_def case_prod_unfold family_refs_def)
  finally have total: "sum_list (map length (dict_values (find_references self text)))
      = sum_list (map (\<lambda>(fam, p). length (finditer p text)) (patterns self))" .
  have "sum_list (map card (dict_values (get_unique_references self text)))
      = sum_list (map (\<lambda>x. card (set (map full_text (snd x))))
          (filter (\<lambda>(k, refs). refs \<noteq> []) ?all))"
    by (simp add: get_unique_references_eq refs dict_values_def comp_def case_prod_unfold)
  also have "\<dots> = sum_list (map (\<lambda>x. card (set (map full_text (snd x)))) ?all)"
    by (rule sum_list_filter_zero) auto
  also have "\<dots> = sum_list (map (\<lambda>(fam, p). card (set (map group0 (finditer p text)))) (patterns self))"
    by (simp add: comp_def case_prod_unfold family_refs_def full_text_ref_of image_image)
  finally show ?thesis using total by (simp add: analysis_fields)
qed

theorem analyze_document_counts_witness:
  "wf_finder init \<and> total_references (analyze_document init scenario) = 4
     \<and> unique_references (analyze_document init scenario) = 4"
  using analyze_document_counts [OF wf_init, of scenario] wf_init
  by (simp add: init_def family_refs_length family_refs_texts scenario_USC scenario_CFR
      scenario_State_Code scenario_Section_Only scenario_Statute_Year)

text \<open>
  C5. For every text, \<open>unique_references\<close> is at most \<open>total_references\<close>.
\<close>

theorem unique_le_total:
  "unique_references (analyze_document self text) \<le> total_references (analyze_document self text)"
proof -
  have "sum_list (map (\<lambda>x. card (set (map full_text (snd x)))) d)
      \<le> sum_list (map (\<lambda>x. length (snd x)) d)" for d :: "(string, ref_data list) dict"
  proof (induction d)
    case Nil
    show ?case by simp
  next
    case (Cons x d)
    have "card (set (map full_text (snd x))) \<le> length (snd x)"
      using card_length [of "map full_text (snd x)"] by simp
    with Cons show ?case by simp
  qed
  then show ?thesis
    by (simp add: analysis_fields get_unique_references_eq dict_values_def comp_def case_prod_unfold)
qed

end
